theory Spec2Isabelle
  imports Main
begin

section \<open>The real filesystem, as the calls of Node's \<open>fs\<close> module see it\<close>

text \<open>
  \<open>BufferedFilesystem\<close> reaches the disk only through \<open>fs.existsSync\<close>,
  \<open>fs.readFileSync\<close>, \<open>fs.writeFileSync\<close>, \<open>fs.unlinkSync\<close>, \<open>fs.mkdirSync\<close> and
  \<open>fs.statSync\<close>. The disk is a map from path to what is there: a file with its
  content, or a directory. Paths are opaque names: the directory hierarchy, links and
  permissions are outside the model, so the only failures are the ones below
  (\<open>ENOENT\<close> for a missing path, \<open>EISDIR\<close> for a file operation on a directory,
  \<open>EEXIST\<close> for \<open>mkdir\<close> of an existing path). Contents are strings; the encoding
  argument is carried but not interpreted.
\<close>

datatype node = File string | Dir

type_synonym disk = "string \<rightharpoonup> node"

datatype errno = ENOENT | EISDIR | EEXIST

datatype error =
    InvariantViolation string
  | FsError errno string
  | NotImplemented string
  | Rejected string

definition fs_existsSync :: "disk \<Rightarrow> string \<Rightarrow> bool" where
  "fs_existsSync d path = (d path \<noteq> None)"

definition fs_readFileSync :: "disk \<Rightarrow> string \<Rightarrow> string \<Rightarrow> error + string" where
  "fs_readFileSync d path encoding =
     (case d path of
        None \<Rightarrow> Inl (FsError ENOENT path)
      | Some Dir \<Rightarrow> Inl (FsError EISDIR path)
      | Some (File content) \<Rightarrow> Inr content)"

definition fs_writeFileSync :: "disk \<Rightarrow> string \<Rightarrow> string \<Rightarrow> string \<Rightarrow> error + disk" where
  "fs_writeFileSync d path data encoding =
     (case d path of
        Some Dir \<Rightarrow> Inl (FsError EISDIR path)
      | _ \<Rightarrow> Inr (d(path \<mapsto> File data)))"

definition fs_unlinkSync :: "disk \<Rightarrow> string \<Rightarrow> error + disk" where
  "fs_unlinkSync d path =
     (case d path of
        None \<Rightarrow> Inl (FsError ENOENT path)
      | Some Dir \<Rightarrow> Inl (FsError EISDIR path)
      | Some (File content) \<Rightarrow> Inr (d(path := None)))"

definition fs_mkdirSync :: "disk \<Rightarrow> string \<Rightarrow> error + disk" where
  "fs_mkdirSync d path =
     (case d path of
        Some n \<Rightarrow> Inl (FsError EEXIST path)
      | None \<Rightarrow> Inr (d(path \<mapsto> Dir)))"

text \<open>The object \<open>fs.statSync\<close> returns, reduced to what \<open>isDirectory()\<close> answers.\<close>

datatype stats = Stats (isDirectory: bool)

definition fs_statSync :: "disk \<Rightarrow> string \<Rightarrow> error + stats" where
  "fs_statSync d path =
     (case d path of
        None \<Rightarrow> Inl (FsError ENOENT path)
      | Some n \<Rightarrow> Inr (Stats (n = Dir)))"

section \<open>The buffer: a JavaScript \<open>Map<string, ?string>\<close>\<close>

text \<open>
  A JavaScript \<open>Map\<close> iterates in insertion order, and \<open>set\<close> on a key that is
  already present replaces the value where it stands. The buffer is therefore an
  association list; a value \<open>None\<close> is JavaScript's \<open>null\<close> (a pending deletion),
  \<open>Some data\<close> a pending write.
\<close>

type_synonym buffer_map = "(string \<times> string option) list"

primrec Map_set :: "string \<Rightarrow> string option \<Rightarrow> buffer_map \<Rightarrow> buffer_map" where
  "Map_set k v [] = [(k, v)]"
| "Map_set k v (e # es) = (if fst e = k then (k, v) # es else e # Map_set k v es)"

definition Map_has :: "buffer_map \<Rightarrow> string \<Rightarrow> bool" where
  "Map_has m k = (map_of m k \<noteq> None)"

text \<open>\<open>get\<close> of an absent key is \<open>undefined\<close>; like \<open>null\<close> it is \<open>== null\<close> and falsy.\<close>

definition Map_get :: "buffer_map \<Rightarrow> string \<Rightarrow> string option" where
  "Map_get m k = (case map_of m k of None \<Rightarrow> None | Some v \<Rightarrow> v)"

definition Map_size :: "buffer_map \<Rightarrow> nat" where
  "Map_size m = length m"

text \<open>\<open>Boolean(v)\<close> for \<open>v : ?string\<close>: \<open>null\<close> and the empty string are falsy.\<close>

definition Boolean :: "string option \<Rightarrow> bool" where
  "Boolean v = (case v of None \<Rightarrow> False | Some str \<Rightarrow> str \<noteq> [])"

section \<open>\<open>BufferedFilesystem\<close>\<close>

record BufferedFilesystem =
  buffer :: buffer_map
  committed :: bool

definition new_BufferedFilesystem :: BufferedFilesystem where
  "new_BufferedFilesystem = \<lparr>buffer = [], committed = False\<rparr>"

definition invariant :: "bool \<Rightarrow> string \<Rightarrow> error + unit" where
  "invariant condition message =
     (if condition then Inr () else Inl (InvariantViolation message))"

definition no_operations_allowed :: string where
  "no_operations_allowed = ''BufferedFilesystem: no operations allowed after commit().''"

definition trying_to_read_deleted :: string where
  "trying_to_read_deleted = ''BufferedFilesystem: trying to read deleted file.''"

definition assertNotComitted :: "BufferedFilesystem \<Rightarrow> error + unit" where
  "assertNotComitted this = invariant (\<not> committed this) no_operations_allowed"

definition hasChanges :: "BufferedFilesystem \<Rightarrow> error + bool" where
  "hasChanges this =
     (case assertNotComitted this of
        Inl e \<Rightarrow> Inl e
      | Inr _ \<Rightarrow> Inr (Map_size (buffer this) > 0))"

text \<open>The loop of \<open>getAddedRemovedFiles\<close>, with its two accumulators.\<close>

fun getAddedRemoved_loop ::
  "disk \<Rightarrow> buffer_map \<Rightarrow> string list \<Rightarrow> string list \<Rightarrow> string list \<times> string list" where
  "getAddedRemoved_loop d [] added removed = (added, removed)"
| "getAddedRemoved_loop d ((path, data) # rest) added removed =
     (case data of
        None \<Rightarrow> getAddedRemoved_loop d rest added (removed @ [path])
      | Some str \<Rightarrow>
          if \<not> fs_existsSync d path
          then getAddedRemoved_loop d rest (added @ [path]) removed
          else getAddedRemoved_loop d rest added removed)"

definition getAddedRemovedFiles ::
  "BufferedFilesystem \<Rightarrow> disk \<Rightarrow> error + string list \<times> string list" where
  "getAddedRemovedFiles this d =
     (case assertNotComitted this of
        Inl e \<Rightarrow> Inl e
      | Inr _ \<Rightarrow> Inr (getAddedRemoved_loop d (buffer this) [] []))"

definition existsSync :: "BufferedFilesystem \<Rightarrow> disk \<Rightarrow> string \<Rightarrow> error + bool" where
  "existsSync this d path =
     (case assertNotComitted this of
        Inl e \<Rightarrow> Inl e
      | Inr _ \<Rightarrow>
          Inr (if Map_has (buffer this) path
               then Boolean (Map_get (buffer this) path)
               else fs_existsSync d path))"

definition mkdirSync :: "BufferedFilesystem \<Rightarrow> disk \<Rightarrow> string \<Rightarrow> error + disk" where
  "mkdirSync this d path =
     (case assertNotComitted this of
        Inl e \<Rightarrow> Inl e
      | Inr _ \<Rightarrow> fs_mkdirSync d path)"

definition readdirSync :: "BufferedFilesystem \<Rightarrow> string \<Rightarrow> error + string list" where
  "readdirSync this path =
     (case assertNotComitted this of
        Inl e \<Rightarrow> Inl e
      | Inr _ \<Rightarrow> Inl (NotImplemented ''BufferedFilesystem: readdirSync is not implemented.''))"

definition readFileSync ::
  "BufferedFilesystem \<Rightarrow> disk \<Rightarrow> string \<Rightarrow> string \<Rightarrow> error + string" where
  "readFileSync this d path encoding =
     (case assertNotComitted this of
        Inl e \<Rightarrow> Inl e
      | Inr _ \<Rightarrow>
          if Map_has (buffer this) path
          then (let data = Map_get (buffer this) path
                in case invariant (data \<noteq> None) trying_to_read_deleted of
                     Inl e \<Rightarrow> Inl e
                   | Inr _ \<Rightarrow> Inr (the data))
          else fs_readFileSync d path encoding)"

definition statSync :: "BufferedFilesystem \<Rightarrow> disk \<Rightarrow> string \<Rightarrow> error + stats" where
  "statSync this d path =
     (case assertNotComitted this of
        Inl e \<Rightarrow> Inl e
      | Inr _ \<Rightarrow> fs_statSync d path)"

definition unlinkSync :: "BufferedFilesystem \<Rightarrow> string \<Rightarrow> error + BufferedFilesystem" where
  "unlinkSync this path =
     (case assertNotComitted this of
        Inl e \<Rightarrow> Inl e
      | Inr _ \<Rightarrow> Inr (this\<lparr>buffer := Map_set path None (buffer this)\<rparr>))"

definition writeFileSync ::
  "BufferedFilesystem \<Rightarrow> string \<Rightarrow> string \<Rightarrow> string \<Rightarrow> error + BufferedFilesystem" where
  "writeFileSync this filename data encoding =
     (case assertNotComitted this of
        Inl e \<Rightarrow> Inl e
      | Inr _ \<Rightarrow> Inr (this\<lparr>buffer := Map_set filename (Some data) (buffer this)\<rparr>))"

subsection \<open>\<open>commit\<close>\<close>

text \<open>
  What \<open>commit\<close> does to the world is recorded as it happens: every call of
  \<open>fs.unlinkSync\<close> and \<open>fs.writeFileSync\<close> and the call of the hook's \<open>addRemove\<close>
  are appended to a trace, in the order the code makes them.
\<close>

datatype event =
    FsUnlink string
  | FsWrite string string
  | AddRemove "string list" "string list"

text \<open>
  The locals of \<open>commit\<close> (\<open>added\<close>, \<open>removed\<close>) together with the disk and the
  trace, threaded through the loop.
\<close>

record commit_state =
  cs_disk :: disk
  cs_added :: "string list"
  cs_removed :: "string list"
  cs_trace :: "event list"

text \<open>
  One iteration of the \<open>for\<close> loop. The first component is the error thrown, if any;
  the state returned with it is the one in which the exception left the world.
\<close>

definition commit_entry :: "string \<times> string option \<Rightarrow> commit_state \<Rightarrow> error option \<times> commit_state" where
  "commit_entry entry st =
     (case entry of (path, data) \<Rightarrow>
       (case data of
          None \<Rightarrow>
            (let st1 = st\<lparr>cs_removed := cs_removed st @ [path],
                          cs_trace := cs_trace st @ [FsUnlink path]\<rparr>
             in case fs_unlinkSync (cs_disk st1) path of
                  Inl e \<Rightarrow> (Some e, st1)
                | Inr d' \<Rightarrow> (None, st1\<lparr>cs_disk := d'\<rparr>))
        | Some str \<Rightarrow>
            (let fileExisits = fs_existsSync (cs_disk st) path
             in case (if fileExisits
                      then (case fs_readFileSync (cs_disk st) path ''utf8'' of
                              Inl e \<Rightarrow> Inl e
                            | Inr content \<Rightarrow> Inr (Some content))
                      else Inr None) of
                  Inl e \<Rightarrow> (Some e, st)
                | Inr currentData \<Rightarrow>
                    if currentData \<noteq> Some str
                    then (let st1 = st\<lparr>cs_added := cs_added st @ [path],
                                       cs_trace := cs_trace st @ [FsWrite path str]\<rparr>
                          in case fs_writeFileSync (cs_disk st1) path str ''utf8'' of
                               Inl e \<Rightarrow> (Some e, st1)
                             | Inr d' \<Rightarrow> (None, st1\<lparr>cs_disk := d'\<rparr>))
                    else (None, st))))"

fun commit_loop :: "buffer_map \<Rightarrow> commit_state \<Rightarrow> error option \<times> commit_state" where
  "commit_loop [] st = (None, st)"
| "commit_loop (entry # rest) st =
     (case commit_entry entry st of
        (Some e, st') \<Rightarrow> (Some e, st')
      | (None, st') \<Rightarrow> commit_loop rest st')"

text \<open>
  The source-control hook is an external collaborator: all that is known of
  \<open>addRemove(added, removed)\<close> is that the promise it returns resolves (\<open>None\<close>) or
  rejects (\<open>Some e\<close>); it is taken not to touch the files itself.
\<close>

type_synonym SourceControl = "string list \<Rightarrow> string list \<Rightarrow> error option"

text \<open>
  The outcome of \<open>commit\<close>: the error it threw or rejected with (\<open>None\<close> when the
  promise resolves), the object afterwards, and the world as \<open>commit\<close> left it.
\<close>

record commit_result =
  thrown :: "error option"
  this_after :: BufferedFilesystem
  final :: commit_state

definition commit ::
  "BufferedFilesystem \<Rightarrow> disk \<Rightarrow> SourceControl option \<Rightarrow> commit_result" where
  "commit this d sourceControl =
     (let st0 = \<lparr>cs_disk = d, cs_added = [], cs_removed = [], cs_trace = []\<rparr>
      in case assertNotComitted this of
           Inl e \<Rightarrow> \<lparr>thrown = Some e, this_after = this, final = st0\<rparr>
         | Inr _ \<Rightarrow>
            (let this1 = this\<lparr>committed := True\<rparr>
             in case commit_loop (buffer this1) st0 of
                  (Some e, st) \<Rightarrow> \<lparr>thrown = Some e, this_after = this1, final = st\<rparr>
                | (None, st) \<Rightarrow>
                    (case sourceControl of
                       None \<Rightarrow> \<lparr>thrown = None, this_after = this1, final = st\<rparr>
                     | Some sc \<Rightarrow>
                         \<lparr>thrown = sc (cs_added st) (cs_removed st),
                          this_after = this1,
                          final = st\<lparr>cs_trace := cs_trace st @
                                     [AddRemove (cs_added st) (cs_removed st)]\<rparr>\<rparr>)))"

fun changedFiles_loop ::
  "buffer_map \<Rightarrow> (string \<times> string) list \<Rightarrow> string list \<Rightarrow> (string \<times> string) list \<times> string list" where
  "changedFiles_loop [] changed removed = (changed, removed)"
| "changedFiles_loop ((path, data) # rest) changed removed =
     (case data of
        None \<Rightarrow> changedFiles_loop rest changed (removed @ [path])
      | Some str \<Rightarrow> changedFiles_loop rest (changed @ [(path, str)]) removed)"

definition changedFilesToJSON ::
  "BufferedFilesystem \<Rightarrow> error + (string \<times> string) list \<times> string list" where
  "changedFilesToJSON this =
     (case assertNotComitted this of
        Inl e \<Rightarrow> Inl e
      | Inr _ \<Rightarrow> Inr (changedFiles_loop (buffer this) [] []))"

section \<open>Sequences of calls made before \<open>commit\<close>\<close>

text \<open>
  A run of the compiler makes a sequence of calls on one \<open>BufferedFilesystem\<close>. A call is
  named by its method and arguments; \<open>perform\<close> makes the call and gives the object
  and the real disk as the call leaves them, whether it returned or threw (a call that
  throws changes neither, and the methods that only read return no new object or
  disk).
\<close>

datatype call =
    WriteFileSync string string string
  | UnlinkSync string
  | ReadFileSync string string
  | ExistsSync string
  | MkdirSync string
  | StatSync string
  | ReaddirSync string
  | HasChanges
  | GetAddedRemovedFiles
  | ChangedFilesToJSON

fun perform :: "call \<Rightarrow> BufferedFilesystem \<times> disk \<Rightarrow> BufferedFilesystem \<times> disk" where
  "perform (WriteFileSync filename data encoding) (this, d) =
     (case writeFileSync this filename data encoding of
        Inl e \<Rightarrow> (this, d)
      | Inr this' \<Rightarrow> (this', d))"
| "perform (UnlinkSync path) (this, d) =
     (case unlinkSync this path of
        Inl e \<Rightarrow> (this, d)
      | Inr this' \<Rightarrow> (this', d))"
| "perform (MkdirSync path) (this, d) =
     (case mkdirSync this d path of
        Inl e \<Rightarrow> (this, d)
      | Inr d' \<Rightarrow> (this, d'))"
| "perform (ReadFileSync path encoding) (this, d) =
     (case readFileSync this d path encoding of
        Inl e \<Rightarrow> (this, d)
      | Inr content \<Rightarrow> (this, d))"
| "perform (ExistsSync path) (this, d) =
     (case existsSync this d path of
        Inl e \<Rightarrow> (this, d)
      | Inr answer \<Rightarrow> (this, d))"
| "perform (StatSync path) (this, d) =
     (case statSync this d path of
        Inl e \<Rightarrow> (this, d)
      | Inr st \<Rightarrow> (this, d))"
| "perform (ReaddirSync path) (this, d) =
     (case readdirSync this path of
        Inl e \<Rightarrow> (this, d)
      | Inr names \<Rightarrow> (this, d))"
| "perform HasChanges (this, d) =
     (case hasChanges this of
        Inl e \<Rightarrow> (this, d)
      | Inr answer \<Rightarrow> (this, d))"
| "perform GetAddedRemovedFiles (this, d) =
     (case getAddedRemovedFiles this d of
        Inl e \<Rightarrow> (this, d)
      | Inr res \<Rightarrow> (this, d))"
| "perform ChangedFilesToJSON (this, d) =
     (case changedFilesToJSON this of
        Inl e \<Rightarrow> (this, d)
      | Inr res \<Rightarrow> (this, d))"

fun run :: "call list \<Rightarrow> BufferedFilesystem \<times> disk \<Rightarrow> BufferedFilesystem \<times> disk" where
  "run [] w = w"
| "run (c # cs) w = run cs (perform c w)"

text \<open>The calls that stage something: a write or an unlink.\<close>

fun stages :: "call \<Rightarrow> bool" where
  "stages (WriteFileSync filename data encoding) = True"
| "stages (UnlinkSync path) = True"
| "stages c = False"

fun is_mkdir :: "call \<Rightarrow> bool" where
  "is_mkdir (MkdirSync path) = True"
| "is_mkdir c = False"



text \<open>
  Specification side: the physical calls one buffer entry is expected to cause on a
  disk \<open>d\<close>, the path an event touches, and the disk a whole buffer is expected to leave.
\<close>

fun spec_entry_events :: "disk \<Rightarrow> string \<times> string option \<Rightarrow> event list" where
  "spec_entry_events d (path, None) = [FsUnlink path]"
| "spec_entry_events d (path, Some data) =
     (if d path = Some (File data) then [] else [FsWrite path data])"

fun spec_entry_added :: "disk \<Rightarrow> string \<times> string option \<Rightarrow> bool" where
  "spec_entry_added d (path, None) = False"
| "spec_entry_added d (path, Some data) = (d path \<noteq> Some (File data))"

fun spec_entry_removed :: "string \<times> string option \<Rightarrow> bool" where
  "spec_entry_removed (path, None) = True"
| "spec_entry_removed (path, Some data) = False"

text \<open>
  Specification side: a pending write to a path that does not exist on the disk \<open>d\<close>
  (what \<open>getAddedRemovedFiles\<close> calls added), and the entries whose physical call
  cannot fail on \<open>d\<close>: a deletion of a file, a write to anything but a directory.
\<close>

fun spec_entry_new :: "disk \<Rightarrow> string \<times> string option \<Rightarrow> bool" where
  "spec_entry_new d (path, None) = False"
| "spec_entry_new d (path, Some data) = (d path = None)"

fun spec_entry_ok :: "disk \<Rightarrow> string \<times> string option \<Rightarrow> bool" where
  "spec_entry_ok d (path, None) = (case d path of Some (File content) \<Rightarrow> True | _ \<Rightarrow> False)"
| "spec_entry_ok d (path, Some data) = (d path \<noteq> Some Dir)"

definition spec_disk_after :: "buffer_map \<Rightarrow> disk \<Rightarrow> disk" where
  "spec_disk_after m d =
     (\<lambda>path. case map_of m path of
                None \<Rightarrow> d path
              | Some None \<Rightarrow> None
              | Some (Some data) \<Rightarrow> Some (File data))"

fun event_path :: "event \<Rightarrow> string option" where
  "event_path (FsUnlink path) = Some path"
| "event_path (FsWrite path data) = Some path"
| "event_path (AddRemove added removed) = None"


text \<open>A source-control hook whose \<open>addRemove\<close> always resolves, for the examples.\<close>

definition resolving_hook :: SourceControl where
  "resolving_hook added removed = None"

section \<open>A run used in the examples\<close>

text \<open>
  The disk before the run, the calls the run makes, and the object they leave: a new
  file \<open>a.out\<close>, a write to \<open>b.out\<close> of what it already holds, the deletion of
  \<open>c.out\<close>, an empty write to \<open>d.out\<close> and a changed \<open>e.out\<close>.
\<close>

definition example_disk :: disk where
  "example_disk =
     [''b.out'' \<mapsto> File ''Y'', ''c.out'' \<mapsto> File ''old'', ''d.out'' \<mapsto> File ''full'',
      ''e.out'' \<mapsto> File ''stale'', ''src'' \<mapsto> Dir]"

definition example_calls :: "call list" where
  "example_calls =
     [WriteFileSync ''a.out'' ''X'' ''utf8'',
      UnlinkSync ''b.out'',
      ExistsSync ''a.out'',
      WriteFileSync ''c.out'' ''tmp'' ''utf8'',
      WriteFileSync ''b.out'' ''Y'' ''utf8'',
      UnlinkSync ''c.out'',
      ReadFileSync ''a.out'' ''utf8'',
      WriteFileSync ''d.out'' [] ''utf8'',
      HasChanges,
      WriteFileSync ''e.out'' ''new'' ''utf8'']"

definition example_staged :: BufferedFilesystem where
  "example_staged = fst (run example_calls (new_BufferedFilesystem, example_disk))"

text \<open>The same pending writes and deletion, staged in another order.\<close>

definition example_reordered :: BufferedFilesystem where
  "example_reordered =
     fst (run [UnlinkSync ''c.out'',
               WriteFileSync ''e.out'' ''new'' ''utf8'',
               WriteFileSync ''d.out'' [] ''utf8'',
               WriteFileSync ''b.out'' ''Y'' ''utf8'',
               WriteFileSync ''a.out'' ''X'' ''utf8'']
            (new_BufferedFilesystem, example_disk))"

text \<open>A run that only rewrites the existing file \<open>e.out\<close>.\<close>

definition example_rewrite :: BufferedFilesystem where
  "example_rewrite =
     fst (run [WriteFileSync ''e.out'' ''new'' ''utf8''] (new_BufferedFilesystem, example_disk))"

text \<open>
  A hook that rejects as soon as it is asked to add a path, and two runs whose \<open>commit\<close>
  meets a failing physical call: one unlinks a path that is not on the disk before it
  unlinks \<open>c.out\<close>; the other writes and then unlinks a path that is not on the disk
  before it writes \<open>a.out\<close>.
\<close>

definition picky_hook :: SourceControl where
  "picky_hook added removed = (if added = [] then None else Some (Rejected ''nothing to add''))"



section \<open>Basic facts\<close>

lemma assertNotComitted_open:
  "\<not> committed this \<Longrightarrow> assertNotComitted this = Inr ()"
  by (simp add: assertNotComitted_def invariant_def)

lemma assertNotComitted_committed:
  "committed this \<Longrightarrow> assertNotComitted this = Inl (InvariantViolation no_operations_allowed)"
  by (simp add: assertNotComitted_def invariant_def)




lemma Map_set_nonempty: "Map_set k v m \<noteq> []"
  by (cases m) auto

lemma example_staged_eq:
  "example_staged =
     \<lparr>buffer = [(''a.out'', Some ''X''), (''b.out'', Some ''Y''), (''c.out'', None),
                (''d.out'', Some []), (''e.out'', Some ''new'')],
      committed = False\<rparr>"
  by (simp add: example_staged_def example_calls_def new_BufferedFilesystem_def
        writeFileSync_def unlinkSync_def assertNotComitted_open)

lemmas fs_defs =
  fs_existsSync_def fs_readFileSync_def fs_writeFileSync_def fs_unlinkSync_def
  fs_mkdirSync_def fs_statSync_def

lemmas commit_eval =
  commit_def commit_entry_def assertNotComitted_open Let_def fs_defs resolving_hook_def

section \<open>After \<open>commit\<close>\<close>

lemma committed_after_commit: "committed (this_after (commit this d sc))"
  by (cases "committed this")
     (auto simp: commit_def assertNotComitted_def invariant_def Let_def
           split: prod.splits option.splits)

text \<open>
  Claim C2. Whatever object \<open>commit\<close> was called on, the object it leaves refuses every
  further call: each of \<open>readFileSync\<close>, \<open>writeFileSync\<close>, \<open>unlinkSync\<close>,
  \<open>existsSync\<close>, \<open>statSync\<close>, \<open>mkdirSync\<close>, \<open>readdirSync\<close>, \<open>hasChanges\<close>,
  \<open>getAddedRemovedFiles\<close> and \<open>changedFilesToJSON\<close> throws the invariant violation
  "no operations allowed after commit()", and so does a second \<open>commit\<close>, which
  touches neither the disk nor the hook.
\<close>

theorem no_operations_after_commit:
  "readFileSync (this_after (commit this d sc)) d' path enc
      = Inl (InvariantViolation no_operations_allowed)
   \<and> writeFileSync (this_after (commit this d sc)) path data enc
      = Inl (InvariantViolation no_operations_allowed)
   \<and> unlinkSync (this_after (commit this d sc)) path
      = Inl (InvariantViolation no_operations_allowed)
   \<and> existsSync (this_after (commit this d sc)) d' path
      = Inl (InvariantViolation no_operations_allowed)
   \<and> statSync (this_after (commit this d sc)) d' path
      = Inl (InvariantViolation no_operations_allowed)
   \<and> mkdirSync (this_after (commit this d sc)) d' path
      = Inl (InvariantViolation no_operations_allowed)
   \<and> readdirSync (this_after (commit this d sc)) path
      = Inl (InvariantViolation no_operations_allowed)
   \<and> hasChanges (this_after (commit this d sc))
      = Inl (InvariantViolation no_operations_allowed)
   \<and> getAddedRemovedFiles (this_after (commit this d sc)) d'
      = Inl (InvariantViolation no_operations_allowed)
   \<and> changedFilesToJSON (this_after (commit this d sc))
      = Inl (InvariantViolation no_operations_allowed)
   \<and> commit (this_after (commit this d sc)) d' sc'
      = \<lparr>thrown = Some (InvariantViolation no_operations_allowed),
         this_after = this_after (commit this d sc),
         final = \<lparr>cs_disk = d', cs_added = [], cs_removed = [], cs_trace = []\<rparr>\<rparr>"
  using committed_after_commit [of this d sc]
  by (simp add: readFileSync_def writeFileSync_def unlinkSync_def existsSync_def
        statSync_def mkdirSync_def readdirSync_def hasChanges_def getAddedRemovedFiles_def
        changedFilesToJSON_def commit_def assertNotComitted_committed)

text \<open>
  The example run, committed with a hook: the promise resolves, and afterwards a read,
  \<open>hasChanges\<close> and a second \<open>commit\<close> all throw.
\<close>

theorem no_operations_after_commit_witness:
  "thrown (commit example_staged example_disk (Some resolving_hook)) = None
   \<and> readFileSync (this_after (commit example_staged example_disk (Some resolving_hook)))
        example_disk ''a.out'' ''utf8''
      = Inl (InvariantViolation no_operations_allowed)
   \<and> hasChanges (this_after (commit example_staged example_disk (Some resolving_hook)))
      = Inl (InvariantViolation no_operations_allowed)
   \<and> thrown (commit (this_after (commit example_staged example_disk (Some resolving_hook)))
        example_disk None)
      = Some (InvariantViolation no_operations_allowed)"
proof -
  have "thrown (commit example_staged example_disk (Some resolving_hook)) = None"
    by (simp add: example_staged_eq example_disk_def commit_eval)
  then show ?thesis
    using no_operations_after_commit
      [of example_staged example_disk "Some resolving_hook" example_disk "''a.out''" "''utf8''"
          "[]" None]
    by simp
qed

section \<open>The staged view of the filesystem\<close>

text \<open>
  Claim C5, as stated, fails on the kind of failure: reading a path staged as deleted is
  not a not-found outcome. In the example run \<open>c.out\<close> is on disk and staged as
  deleted; \<open>readFileSync\<close> throws the invariant violation "trying to read deleted
  file", where a path that is missing from the real filesystem gives \<open>ENOENT\<close>.
\<close>

theorem read_deleted_is_invariant_violation:
  "map_of (buffer example_staged) ''c.out'' = Some None
   \<and> readFileSync example_staged example_disk ''c.out'' ''utf8''
       = Inl (InvariantViolation trying_to_read_deleted)
   \<and> readFileSync example_staged example_disk ''c.out'' ''utf8''
       \<noteq> Inl (FsError ENOENT ''c.out'')
   \<and> readFileSync example_staged example_disk ''missing'' ''utf8''
       = Inl (FsError ENOENT ''missing'')"
  by (simp add: example_staged_eq example_disk_def readFileSync_def assertNotComitted_open
        Map_has_def Map_get_def invariant_def fs_readFileSync_def)

text \<open>
  Claim C5, amended. Before \<open>commit\<close>, \<open>readFileSync\<close> returns the staged content of
  a path with a pending write and reads the real filesystem for a path that is not
  staged; for a path staged as deleted it throws the invariant violation "trying to
  read deleted file" (the kind of error thrown for a call after \<open>commit\<close>, not a
  not-found error) and does not return what is on disk. \<open>existsSync\<close> answers
  \<open>false\<close> for a path staged as deleted and asks the real filesystem for a path that is
  not staged (for a pending write it answers whether the staged content is non-empty).
\<close>


theorem staged_view:
  "\<not> committed this \<Longrightarrow>
     readFileSync this d path enc =
       (case map_of (buffer this) path of
          None \<Rightarrow> fs_readFileSync d path enc
        | Some None \<Rightarrow> Inl (InvariantViolation trying_to_read_deleted)
        | Some (Some data) \<Rightarrow> Inr data)
   \<and> existsSync this d path =
       Inr (case map_of (buffer this) path of
              None \<Rightarrow> fs_existsSync d path
            | Some None \<Rightarrow> False
            | Some (Some data) \<Rightarrow> data \<noteq> [])"
  by (simp add: readFileSync_def existsSync_def assertNotComitted_open Map_has_def Map_get_def
        invariant_def Boolean_def split: option.splits)

text \<open>
  In the example run: \<open>e.out\<close> holds "stale" on disk and reads as the staged "new";
  \<open>c.out\<close> is on disk but staged as deleted, so reading it throws and it does not
  exist; \<open>src\<close> and \<open>missing\<close> are not staged and go to the real filesystem.
\<close>

theorem staged_view_witness:
  "\<not> committed example_staged
   \<and> readFileSync example_staged example_disk ''e.out'' ''utf8'' = Inr ''new''
   \<and> readFileSync example_staged example_disk ''c.out'' ''utf8''
       = Inl (InvariantViolation trying_to_read_deleted)
   \<and> existsSync example_staged example_disk ''c.out'' = Inr False
   \<and> readFileSync example_staged example_disk ''missing'' ''utf8''
       = Inl (FsError ENOENT ''missing'')
   \<and> existsSync example_staged example_disk ''missing'' = Inr False
   \<and> existsSync example_staged example_disk ''src'' = Inr True"
  using staged_view [of example_staged example_disk "''e.out''" "''utf8''"]
        staged_view [of example_staged example_disk "''c.out''" "''utf8''"]
        staged_view [of example_staged example_disk "''missing''" "''utf8''"]
        staged_view [of example_staged example_disk "''src''" "''utf8''"]
  by (simp add: example_staged_eq example_disk_def fs_defs)

text \<open>
  Claim C9. While a write of the empty string is pending for a path, \<open>existsSync\<close>
  answers \<open>false\<close> for it, although \<open>readFileSync\<close> returns the empty string.
\<close>

theorem empty_write_not_exists:
  "\<not> committed this \<Longrightarrow> map_of (buffer this) path = Some (Some []) \<Longrightarrow>
     existsSync this d path = Inr False \<and> readFileSync this d path enc = Inr []"
  by (simp add: readFileSync_def existsSync_def assertNotComitted_open Map_has_def Map_get_def
        invariant_def Boolean_def)

text \<open>
  In the example run the empty write goes to \<open>d.out\<close>, which is a non-empty file on the
  real disk.
\<close>

theorem empty_write_not_exists_witness:
  "\<not> committed example_staged
   \<and> map_of (buffer example_staged) ''d.out'' = Some (Some [])
   \<and> fs_existsSync example_disk ''d.out''
   \<and> existsSync example_staged example_disk ''d.out'' = Inr False
   \<and> readFileSync example_staged example_disk ''d.out'' ''utf8'' = Inr []"
proof -
  have h1: "\<not> committed example_staged"
    by (simp add: example_staged_eq)
  have h2: "map_of (buffer example_staged) ''d.out'' = Some (Some [])"
    by (simp add: example_staged_eq)
  have h3: "fs_existsSync example_disk ''d.out''"
    by (simp add: example_disk_def fs_existsSync_def)
  from h1 h2 h3 empty_write_not_exists [OF h1 h2, of example_disk "''utf8''"]
  show ?thesis by simp
qed

section \<open>Calls made before \<open>commit\<close>\<close>

lemma perform_committed: "committed (fst (perform c w)) = committed (fst w)"
  by (cases c; cases w; cases "committed (fst w)")
     (auto simp: writeFileSync_def unlinkSync_def mkdirSync_def assertNotComitted_open
        assertNotComitted_committed split: sum.splits)

lemma run_committed: "committed (fst (run cs w)) = committed (fst w)"
  by (induction cs arbitrary: w) (simp_all add: perform_committed)





lemma perform_empty:
  "\<not> committed (fst w) \<Longrightarrow>
   (buffer (fst (perform c w)) = []) = (buffer (fst w) = [] \<and> \<not> stages c)"
  by (cases c; cases w)
     (auto simp: writeFileSync_def unlinkSync_def mkdirSync_def assertNotComitted_open
        Map_set_nonempty split: sum.splits)

lemma run_empty:
  "\<not> committed (fst w) \<Longrightarrow>
   (buffer (fst (run cs w)) = []) = (buffer (fst w) = [] \<and> \<not> list_ex stages cs)"
proof (induction cs arbitrary: w)
  case Nil
  then show ?case by simp
next
  case (Cons c cs)
  have "\<not> committed (fst (perform c w))"
    using Cons.prems by (simp add: perform_committed)
  from Cons.IH [OF this] show ?case
    using Cons.prems by (auto simp: perform_empty)
qed

text \<open>
  Claim C8. On an object that started empty and has not been committed,
  \<open>hasChanges()\<close> returns \<open>true\<close> exactly when one of the calls made so far was a
  \<open>writeFileSync\<close> or an \<open>unlinkSync\<close>; what the real disk holds plays no part.
\<close>

theorem hasChanges_iff_staged:
  "hasChanges (fst (run calls (new_BufferedFilesystem, d))) = Inr (list_ex stages calls)"
proof -
  have open0: "\<not> committed (fst (new_BufferedFilesystem, d))"
    by (simp add: new_BufferedFilesystem_def)
  then have "\<not> committed (fst (run calls (new_BufferedFilesystem, d)))"
    by (simp add: run_committed)
  moreover have
    "(buffer (fst (run calls (new_BufferedFilesystem, d))) = []) = (\<not> list_ex stages calls)"
    using run_empty [OF open0, of calls] by (simp add: new_BufferedFilesystem_def)
  ultimately show ?thesis
    by (simp add: hasChanges_def assertNotComitted_open Map_size_def)
qed

text \<open>
  A single write of what the disk already holds makes \<open>hasChanges()\<close> true; reads
  alone leave it false.
\<close>

theorem hasChanges_iff_staged_witness:
  "hasChanges (fst (run [WriteFileSync ''b.out'' ''Y'' ''utf8'']
                     (new_BufferedFilesystem, example_disk))) = Inr True
   \<and> example_disk ''b.out'' = Some (File ''Y'')
   \<and> hasChanges (fst (run [ReadFileSync ''b.out'' ''utf8'', ExistsSync ''b.out'']
                     (new_BufferedFilesystem, example_disk))) = Inr False"
  using hasChanges_iff_staged [of "[WriteFileSync ''b.out'' ''Y'' ''utf8'']" example_disk]
        hasChanges_iff_staged
          [of "[ReadFileSync ''b.out'' ''utf8'', ExistsSync ''b.out'']" example_disk]
  by (simp add: example_disk_def)

lemma perform_disk:
  "snd (perform c w) path = snd w path
   \<or> (snd w path = None \<and> snd (perform c w) path = Some Dir \<and> c = MkdirSync path)"
  by (cases c; cases w)
     (auto simp: writeFileSync_def unlinkSync_def mkdirSync_def fs_mkdirSync_def
        split: sum.splits option.splits)

lemma perform_disk_no_mkdir: "\<not> is_mkdir c \<Longrightarrow> snd (perform c w) = snd w"
  by (cases c; cases w) (auto split: sum.splits)

lemma run_disk_no_mkdir: "\<not> list_ex is_mkdir cs \<Longrightarrow> snd (run cs w) = snd w"
  by (induction cs arbitrary: w) (simp_all add: perform_disk_no_mkdir)

lemma run_disk:
  "snd (run cs w) path = snd w path
   \<or> (snd w path = None \<and> snd (run cs w) path = Some Dir \<and> MkdirSync path \<in> set cs)"
proof (induction cs arbitrary: w)
  case Nil
  then show ?case by simp
next
  case (Cons c cs)
  from Cons.IH [of "perform c w"] perform_disk [of c w path]
  show ?case by auto
qed

text \<open>
  Claim C7, as stated, fails: \<open>mkdirSync\<close> is not buffered. On a new object and an
  empty disk, the single call \<open>mkdirSync("out")\<close> changes the real disk.
\<close>

theorem mkdir_not_buffered:
  "snd (run [MkdirSync ''out''] (new_BufferedFilesystem, Map.empty)) \<noteq> Map.empty"
  by (simp add: mkdirSync_def new_BufferedFilesystem_def assertNotComitted_open fs_mkdirSync_def)

text \<open>
  Claim C7, amended. Writes and deletions of files are buffered until \<open>commit\<close>: a
  sequence of calls with no \<open>mkdirSync\<close> in it leaves the real filesystem exactly as
  it was. \<open>mkdirSync\<close> goes straight to the real filesystem, and it is the only call
  that does: after any sequence of calls every path holds what it held before, except
  that a path that did not exist and was passed to \<open>mkdirSync\<close> may now be a
  directory.
\<close>

theorem staging_leaves_files:
  "(\<forall>path. snd (run calls (this, d)) path = d path
       \<or> (d path = None \<and> snd (run calls (this, d)) path = Some Dir
           \<and> MkdirSync path \<in> set calls))
   \<and> (\<not> list_ex is_mkdir calls \<longrightarrow> snd (run calls (this, d)) = d)"
  using run_disk [of calls "(this, d)"] run_disk_no_mkdir [of calls "(this, d)"]
  by simp

text \<open>
  The example run has no \<open>mkdirSync\<close> and leaves the disk as it was; a \<open>mkdirSync\<close> of
  the new path \<open>gen\<close> creates the directory at once.
\<close>

theorem staging_leaves_files_witness:
  "\<not> list_ex is_mkdir example_calls
   \<and> snd (run example_calls (new_BufferedFilesystem, example_disk)) = example_disk
   \<and> example_disk ''gen'' = None
   \<and> snd (run [MkdirSync ''gen''] (new_BufferedFilesystem, example_disk)) ''gen'' = Some Dir"
proof -
  have h: "\<not> list_ex is_mkdir example_calls"
    by (simp add: example_calls_def)
  have g: "example_disk ''gen'' = None"
    by (simp add: example_disk_def)
  have m: "snd (run [MkdirSync ''gen''] (new_BufferedFilesystem, example_disk)) ''gen''
             \<noteq> example_disk ''gen''"
    by (simp add: mkdirSync_def new_BufferedFilesystem_def assertNotComitted_open
          fs_mkdirSync_def example_disk_def)
  from staging_leaves_files [of example_calls new_BufferedFilesystem example_disk] h
  have a: "snd (run example_calls (new_BufferedFilesystem, example_disk)) = example_disk"
    by simp
  from staging_leaves_files [of "[MkdirSync ''gen'']" new_BufferedFilesystem example_disk] m
  have b: "snd (run [MkdirSync ''gen''] (new_BufferedFilesystem, example_disk)) ''gen'' = Some Dir"
    by blast
  from h a g b show ?thesis by simp
qed

section \<open>The loop of \<open>commit\<close>\<close>

text \<open>One iteration that does not throw has exactly the expected effect.\<close>

lemma commit_entry_ok:
  assumes "commit_entry e st = (None, st')"
  shows "st' = st\<lparr>cs_disk := spec_disk_after [e] (cs_disk st),
                 cs_added := cs_added st @ (if spec_entry_added (cs_disk st) e then [fst e] else []),
                 cs_removed := cs_removed st @ (if spec_entry_removed e then [fst e] else []),
                 cs_trace := cs_trace st @ spec_entry_events (cs_disk st) e\<rparr>"
proof (cases e)
  case (Pair path data)
  show ?thesis
  proof (cases data)
    case None
    with Pair assms show ?thesis
      by (auto simp: commit_entry_def fs_unlinkSync_def spec_disk_after_def fun_eq_iff Let_def
            split: option.splits node.splits)
  next
    case (Some str)
    with Pair assms show ?thesis
      by (auto simp: commit_entry_def fs_existsSync_def fs_readFileSync_def fs_writeFileSync_def
            spec_disk_after_def fun_eq_iff Let_def
            split: option.splits node.splits if_splits)
  qed
qed

lemma spec_disk_after_single_other:
  "q \<noteq> fst e \<Longrightarrow> spec_disk_after [e] d q = d q"
  by (cases e) (simp add: spec_disk_after_def)

lemma spec_entry_added_cong:
  "d1 (fst x) = d (fst x) \<Longrightarrow> spec_entry_added d1 x = spec_entry_added d x"
  by (cases x; cases "snd x") auto

lemma spec_entry_events_cong:
  "d1 (fst x) = d (fst x) \<Longrightarrow> spec_entry_events d1 x = spec_entry_events d x"
  by (cases x; cases "snd x") auto

lemma spec_disk_after_Cons:
  "fst e \<notin> fst ` set es \<Longrightarrow>
   spec_disk_after es (spec_disk_after [e] d) = spec_disk_after (e # es) d"
proof
  fix q
  assume notin: "fst e \<notin> fst ` set es"
  show "spec_disk_after es (spec_disk_after [e] d) q = spec_disk_after (e # es) d q"
  proof (cases "q = fst e")
    case True
    with notin have "map_of es q = None"
      by (simp add: map_of_eq_None_iff)
    with True show ?thesis
      by (cases e) (simp add: spec_disk_after_def)
  next
    case False
    then show ?thesis
      by (cases e) (auto simp: spec_disk_after_def split: option.splits)
  qed
qed

lemma commit_loop_ok:
  assumes "distinct (map fst es)" and "commit_loop es st = (None, st')"
  shows "cs_disk st' = spec_disk_after es (cs_disk st)
       \<and> cs_added st' = cs_added st @ map fst (filter (spec_entry_added (cs_disk st)) es)
       \<and> cs_removed st' = cs_removed st @ map fst (filter spec_entry_removed es)
       \<and> cs_trace st' = cs_trace st @ concat (map (spec_entry_events (cs_disk st)) es)"
  using assms
proof (induction es arbitrary: st)
  case Nil
  then show ?case by (simp add: spec_disk_after_def)
next
  case (Cons e es)
  from Cons.prems(2) obtain st1 where
    e: "commit_entry e st = (None, st1)" and rest: "commit_loop es st1 = (None, st')"
    by (auto split: prod.splits option.splits)
  let ?d = "cs_disk st"
  note st1 = commit_entry_ok [OF e]
  from Cons.prems(1) have notin: "fst e \<notin> fst ` set es" and dist: "distinct (map fst es)"
    by auto
  have d1: "cs_disk st1 = spec_disk_after [e] ?d"
    by (subst st1) simp
  have same: "\<And>x. x \<in> set es \<Longrightarrow> cs_disk st1 (fst x) = ?d (fst x)"
  proof -
    fix x assume "x \<in> set es"
    with notin have "fst x \<noteq> fst e" by (metis imageI)
    then show "cs_disk st1 (fst x) = ?d (fst x)"
      by (simp add: d1 spec_disk_after_single_other)
  qed
  have f1: "filter (spec_entry_added (cs_disk st1)) es = filter (spec_entry_added ?d) es"
    by (rule filter_cong [OF refl]) (rule spec_entry_added_cong, rule same)
  have f2: "map (spec_entry_events (cs_disk st1)) es = map (spec_entry_events ?d) es"
    by (rule map_cong [OF refl]) (rule spec_entry_events_cong, rule same)
  have a1: "cs_added st1 = cs_added st @ (if spec_entry_added ?d e then [fst e] else [])"
    by (subst st1) simp
  have r1: "cs_removed st1 = cs_removed st @ (if spec_entry_removed e then [fst e] else [])"
    by (subst st1) simp
  have t1: "cs_trace st1 = cs_trace st @ spec_entry_events ?d e"
    by (subst st1) simp
  from Cons.IH [OF dist rest, unfolded f1 f2] show ?case
    by (simp add: a1 r1 t1 d1 spec_disk_after_Cons [OF notin])
qed

text \<open>A \<open>commit\<close> whose promise resolves ran its loop to the end.\<close>

lemma commit_resolved:
  assumes "thrown (commit this d sc) = None"
  obtains st where
    "\<not> committed this"
    "commit_loop (buffer this) \<lparr>cs_disk = d, cs_added = [], cs_removed = [], cs_trace = []\<rparr>
       = (None, st)"
    "final (commit this d sc) =
       (case sc of
          None \<Rightarrow> st
        | Some h \<Rightarrow> st\<lparr>cs_trace := cs_trace st @ [AddRemove (cs_added st) (cs_removed st)]\<rparr>)"
proof (cases "committed this")
  case True
  with assms show ?thesis
    by (simp add: commit_def assertNotComitted_committed)
next
  case False
  obtain err st where loop:
    "commit_loop (buffer this) \<lparr>cs_disk = d, cs_added = [], cs_removed = [], cs_trace = []\<rparr>
       = (err, st)"
    by (cases "commit_loop (buffer this)
                 \<lparr>cs_disk = d, cs_added = [], cs_removed = [], cs_trace = []\<rparr>")
  with assms False have "err = None"
    by (cases err) (simp_all add: commit_def assertNotComitted_open)
  with loop False that show ?thesis
    by (simp add: commit_def assertNotComitted_open split: option.splits)
qed

lemma commit_effects:
  assumes "distinct (map fst (buffer this))" and "thrown (commit this d sc) = None"
  shows "cs_disk (final (commit this d sc)) = spec_disk_after (buffer this) d"
    and "cs_added (final (commit this d sc)) = map fst (filter (spec_entry_added d) (buffer this))"
    and "cs_removed (final (commit this d sc)) = map fst (filter spec_entry_removed (buffer this))"
    and "cs_trace (final (commit this d sc)) =
           concat (map (spec_entry_events d) (buffer this)) @
           (case sc of
              None \<Rightarrow> []
            | Some h \<Rightarrow> [AddRemove (cs_added (final (commit this d sc)))
                                   (cs_removed (final (commit this d sc)))])"
proof -
  from assms(2) obtain st where
    loop: "commit_loop (buffer this) \<lparr>cs_disk = d, cs_added = [], cs_removed = [], cs_trace = []\<rparr>
             = (None, st)"
    and fin: "final (commit this d sc) =
       (case sc of
          None \<Rightarrow> st
        | Some h \<Rightarrow> st\<lparr>cs_trace := cs_trace st @ [AddRemove (cs_added st) (cs_removed st)]\<rparr>)"
    by (rule commit_resolved)
  note ok = commit_loop_ok [OF assms(1) loop]
  show "cs_disk (final (commit this d sc)) = spec_disk_after (buffer this) d"
    using ok by (simp add: fin split: option.splits)
  show "cs_added (final (commit this d sc)) = map fst (filter (spec_entry_added d) (buffer this))"
    using ok by (simp add: fin split: option.splits)
  show "cs_removed (final (commit this d sc)) = map fst (filter spec_entry_removed (buffer this))"
    using ok by (simp add: fin split: option.splits)
  show "cs_trace (final (commit this d sc)) =
           concat (map (spec_entry_events d) (buffer this)) @
           (case sc of
              None \<Rightarrow> []
            | Some h \<Rightarrow> [AddRemove (cs_added (final (commit this d sc)))
                                   (cs_removed (final (commit this d sc)))])"
    using ok fin by (cases sc) simp_all
qed

text \<open>
  Whatever the outcome, an entry leaves other paths alone, and a pending write of what the
  disk already holds does nothing.
\<close>

lemma commit_entry_other:
  assumes "fst e \<noteq> p" and "commit_entry e st = (err, st')"
  shows "cs_disk st' p = cs_disk st p
       \<and> (p \<in> set (cs_added st') \<longrightarrow> p \<in> set (cs_added st))
       \<and> (p \<in> set (cs_removed st') \<longrightarrow> p \<in> set (cs_removed st))
       \<and> (\<forall>ev \<in> set (cs_trace st'). event_path ev = Some p \<longrightarrow> ev \<in> set (cs_trace st))"
proof (cases e)
  case (Pair path data)
  show ?thesis
  proof (cases data)
    case None
    with Pair assms show ?thesis
      by (auto simp: commit_entry_def fs_unlinkSync_def Let_def
            split: option.splits node.splits)
  next
    case (Some str)
    with Pair assms show ?thesis
      by (auto simp: commit_entry_def fs_existsSync_def fs_readFileSync_def fs_writeFileSync_def
            Let_def split: option.splits node.splits if_splits)
  qed
qed

lemma commit_entry_same:
  "cs_disk st p = Some (File data) \<Longrightarrow> commit_entry (p, Some data) st = (None, st)"
  by (simp add: commit_entry_def fs_existsSync_def fs_readFileSync_def)

lemma commit_loop_untouched:
  assumes "\<forall>v. (p, v) \<in> set es \<longrightarrow> v = Some data"
    and "cs_disk st p = Some (File data)"
    and "commit_loop es st = (err, st')"
  shows "cs_disk st' p = Some (File data)
       \<and> (p \<in> set (cs_added st') \<longrightarrow> p \<in> set (cs_added st))
       \<and> (p \<in> set (cs_removed st') \<longrightarrow> p \<in> set (cs_removed st))
       \<and> (\<forall>ev \<in> set (cs_trace st'). event_path ev = Some p \<longrightarrow> ev \<in> set (cs_trace st))"
  using assms
proof (induction es arbitrary: st)
  case Nil
  then show ?case by simp
next
  case (Cons e es)
  obtain err1 st1 where e: "commit_entry e st = (err1, st1)"
    by (cases "commit_entry e st")
  have step: "cs_disk st1 p = Some (File data)
       \<and> (p \<in> set (cs_added st1) \<longrightarrow> p \<in> set (cs_added st))
       \<and> (p \<in> set (cs_removed st1) \<longrightarrow> p \<in> set (cs_removed st))
       \<and> (\<forall>ev \<in> set (cs_trace st1). event_path ev = Some p \<longrightarrow> ev \<in> set (cs_trace st))"
  proof (cases "fst e = p")
    case True
    with Cons.prems(1) have "e = (p, Some data)"
      by (cases e) auto
    with e Cons.prems(2) show ?thesis
      by (simp add: commit_entry_same)
  next
    case False
    from commit_entry_other [OF False e] Cons.prems(2) show ?thesis
      by simp
  qed
  show ?case
  proof (cases err1)
    case None
    with e Cons.prems(3) have rest: "commit_loop es st1 = (err, st')"
      by simp
    from Cons.prems(1) have "\<forall>v. (p, v) \<in> set es \<longrightarrow> v = Some data"
      by simp
    from Cons.IH [OF this _ rest] step show ?thesis
      by blast
  next
    case (Some x)
    with e Cons.prems(3) have "st' = st1"
      by simp
    with step show ?thesis
      by simp
  qed
qed

lemma map_of_distinct_unique:
  "distinct (map fst es) \<Longrightarrow> map_of es p = Some v \<Longrightarrow> (p, w) \<in> set es \<Longrightarrow> w = v"
  by (metis map_of_is_SomeI option.inject)

text \<open>The lists and the trace, read path by path.\<close>

lemma getAddedRemoved_loop_eq:
  "getAddedRemoved_loop d es added removed =
     (added @ map fst (filter (spec_entry_new d) es),
      removed @ map fst (filter spec_entry_removed es))"
proof (induction es arbitrary: added removed)
  case Nil
  then show ?case by simp
next
  case (Cons e es)
  then show ?case
    by (cases e; cases "snd e") (simp_all add: fs_existsSync_def)
qed

lemma in_filtered_keys:
  assumes "distinct (map fst es)"
  shows "(p \<in> set (map fst (filter P es))) = (\<exists>v. map_of es p = Some v \<and> P (p, v))"
proof -
  have "(p \<in> set (map fst (filter P es))) = (\<exists>v. (p, v) \<in> set es \<and> P (p, v))"
    by force
  also have "\<dots> = (\<exists>v. map_of es p = Some v \<and> P (p, v))"
    using assms by (simp add: map_of_eq_Some_iff)
  finally show ?thesis .
qed

lemma in_added_iff:
  "distinct (map fst es) \<Longrightarrow>
   (p \<in> set (map fst (filter (spec_entry_added d) es)))
     = (\<exists>data. map_of es p = Some (Some data) \<and> d p \<noteq> Some (File data))"
proof -
  assume dist: "distinct (map fst es)"
  have "(\<exists>v. map_of es p = Some v \<and> spec_entry_added d (p, v))
          = (\<exists>data. map_of es p = Some (Some data) \<and> d p \<noteq> Some (File data))"
  proof
    assume "\<exists>v. map_of es p = Some v \<and> spec_entry_added d (p, v)"
    then obtain v where v: "map_of es p = Some v" "spec_entry_added d (p, v)" by blast
    then show "\<exists>data. map_of es p = Some (Some data) \<and> d p \<noteq> Some (File data)"
      by (cases v) auto
  next
    assume "\<exists>data. map_of es p = Some (Some data) \<and> d p \<noteq> Some (File data)"
    then obtain data where "map_of es p = Some (Some data)" "d p \<noteq> Some (File data)" by blast
    then have "map_of es p = Some (Some data) \<and> spec_entry_added d (p, Some data)" by simp
    then show "\<exists>v. map_of es p = Some v \<and> spec_entry_added d (p, v)" by blast
  qed
  with in_filtered_keys [OF dist, of p "spec_entry_added d"] show ?thesis by simp
qed

lemma in_new_iff:
  "distinct (map fst es) \<Longrightarrow>
   (p \<in> set (map fst (filter (spec_entry_new d) es)))
     = (\<exists>data. map_of es p = Some (Some data) \<and> d p = None)"
proof -
  assume dist: "distinct (map fst es)"
  have "(\<exists>v. map_of es p = Some v \<and> spec_entry_new d (p, v))
          = (\<exists>data. map_of es p = Some (Some data) \<and> d p = None)"
  proof
    assume "\<exists>v. map_of es p = Some v \<and> spec_entry_new d (p, v)"
    then obtain v where v: "map_of es p = Some v" "spec_entry_new d (p, v)" by blast
    then show "\<exists>data. map_of es p = Some (Some data) \<and> d p = None"
      by (cases v) auto
  next
    assume "\<exists>data. map_of es p = Some (Some data) \<and> d p = None"
    then obtain data where "map_of es p = Some (Some data)" "d p = None" by blast
    then have "map_of es p = Some (Some data) \<and> spec_entry_new d (p, Some data)" by simp
    then show "\<exists>v. map_of es p = Some v \<and> spec_entry_new d (p, v)" by blast
  qed
  with in_filtered_keys [OF dist, of p "spec_entry_new d"] show ?thesis by simp
qed

lemma in_removed_iff:
  "distinct (map fst es) \<Longrightarrow>
   (p \<in> set (map fst (filter spec_entry_removed es))) = (map_of es p = Some None)"
proof -
  assume dist: "distinct (map fst es)"
  have "(\<exists>v. map_of es p = Some v \<and> spec_entry_removed (p, v)) = (map_of es p = Some None)"
  proof
    assume "\<exists>v. map_of es p = Some v \<and> spec_entry_removed (p, v)"
    then obtain v where v: "map_of es p = Some v" "spec_entry_removed (p, v)" by blast
    then show "map_of es p = Some None"
      by (cases v) auto
  next
    assume "map_of es p = Some None"
    then have "map_of es p = Some None \<and> spec_entry_removed (p, None)" by simp
    then show "\<exists>v. map_of es p = Some v \<and> spec_entry_removed (p, v)" by blast
  qed
  with in_filtered_keys [OF dist, of p spec_entry_removed] show ?thesis by simp
qed

lemma events_of_path:
  "distinct (map fst es) \<Longrightarrow>
   filter (\<lambda>ev. event_path ev = Some p) (concat (map (spec_entry_events d) es)) =
     (case map_of es p of None \<Rightarrow> [] | Some v \<Rightarrow> spec_entry_events d (p, v))"
proof (induction es)
  case Nil
  then show ?case by simp
next
  case (Cons e es)
  obtain q v where e: "e = (q, v)" by (cases e)
  from Cons.prems have notin: "q \<notin> fst ` set es" and dist: "distinct (map fst es)"
    by (auto simp: e)
  show ?case
  proof (cases "q = p")
    case True
    with notin have none: "map_of es p = None"
      by (simp add: map_of_eq_None_iff)
    have own: "filter (\<lambda>ev. event_path ev = Some p) (spec_entry_events d (p, v))
                 = spec_entry_events d (p, v)"
      by (cases v) auto
    from Cons.IH [OF dist] none own True show ?thesis
      by (simp add: e)
  next
    case False
    have other: "filter (\<lambda>ev. event_path ev = Some p) (spec_entry_events d (q, v)) = []"
      using False by (cases v) auto
    from Cons.IH [OF dist] other False show ?thesis
      by (simp add: e)
  qed
qed


lemma no_path_in_AddRemove:
  "filter (\<lambda>ev. event_path ev = Some p)
     (case sc of None \<Rightarrow> [] | Some h \<Rightarrow> [AddRemove a r]) = []"
  by (cases sc) auto

lemma FsWrite_in_entry_events:
  "(FsWrite p data \<in> set (spec_entry_events d (p, v))) = (v = Some data \<and> d p \<noteq> Some (File data))"
  by (cases v) auto

text \<open>When the loop runs to the end: exactly when no physical call fails.\<close>

lemma commit_entry_resolves:
  "(fst (commit_entry e st) = None) = spec_entry_ok (cs_disk st) e"
proof (cases e)
  case (Pair path data)
  show ?thesis
  proof (cases data)
    case None
    with Pair show ?thesis
      by (auto simp: commit_entry_def fs_unlinkSync_def Let_def split: option.splits node.splits)
  next
    case (Some str)
    with Pair show ?thesis
      by (auto simp: commit_entry_def fs_existsSync_def fs_readFileSync_def fs_writeFileSync_def
            Let_def split: option.splits node.splits)
  qed
qed

lemma spec_entry_ok_cong:
  "d1 (fst x) = d (fst x) \<Longrightarrow> spec_entry_ok d1 x = spec_entry_ok d x"
  by (cases x; cases "snd x") auto

lemma commit_loop_resolves:
  "distinct (map fst es) \<Longrightarrow>
   (fst (commit_loop es st) = None) = list_all (spec_entry_ok (cs_disk st)) es"
proof (induction es arbitrary: st)
  case Nil
  then show ?case by simp
next
  case (Cons e es)
  from Cons.prems have notin: "fst e \<notin> fst ` set es" and dist: "distinct (map fst es)"
    by auto
  obtain err st1 where e: "commit_entry e st = (err, st1)"
    by (cases "commit_entry e st")
  show ?case
  proof (cases err)
    case (Some x)
    with e commit_entry_resolves [of e st] show ?thesis
      by simp
  next
    case None
    with e commit_entry_resolves [of e st] have ok: "spec_entry_ok (cs_disk st) e"
      by simp
    from e None have e': "commit_entry e st = (None, st1)"
      by simp
    have d1: "cs_disk st1 = spec_disk_after [e] (cs_disk st)"
      by (subst commit_entry_ok [OF e']) simp
    have "list_all (spec_entry_ok (cs_disk st1)) es = list_all (spec_entry_ok (cs_disk st)) es"
      unfolding list_all_iff
    proof (rule ball_cong [OF refl])
      fix x assume "x \<in> set es"
      with notin have "fst x \<noteq> fst e" by (metis imageI)
      then show "spec_entry_ok (cs_disk st1) x = spec_entry_ok (cs_disk st) x"
        by (intro spec_entry_ok_cong) (simp add: d1 spec_disk_after_single_other)
    qed
    with Cons.IH [OF dist, of st1] e None ok show ?thesis
      by simp
  qed
qed

lemma commit_resolves_iff:
  assumes "\<not> committed this" and "distinct (map fst (buffer this))"
  shows "(thrown (commit this d None) = None) = list_all (spec_entry_ok d) (buffer this)"
proof -
  let ?st0 = "\<lparr>cs_disk = d, cs_added = [], cs_removed = [], cs_trace = []\<rparr>"
  obtain err st where loop: "commit_loop (buffer this) ?st0 = (err, st)"
    by (cases "commit_loop (buffer this) ?st0")
  with commit_loop_resolves [OF assms(2), of ?st0]
  have "(err = None) = list_all (spec_entry_ok d) (buffer this)"
    by simp
  moreover have "thrown (commit this d None) = err"
    using assms(1) loop by (cases err) (simp_all add: commit_def assertNotComitted_open)
  ultimately show ?thesis by simp
qed



text \<open>The example runs, committed.\<close>

lemma example_reordered_eq:
  "example_reordered =
     \<lparr>buffer = [(''c.out'', None), (''e.out'', Some ''new''), (''d.out'', Some []),
                (''b.out'', Some ''Y''), (''a.out'', Some ''X'')],
      committed = False\<rparr>"
  by (simp add: example_reordered_def new_BufferedFilesystem_def
        writeFileSync_def unlinkSync_def assertNotComitted_open)

lemma example_rewrite_eq:
  "example_rewrite = \<lparr>buffer = [(''e.out'', Some ''new'')], committed = False\<rparr>"
  by (simp add: example_rewrite_def new_BufferedFilesystem_def
        writeFileSync_def assertNotComitted_open)

lemma example_commit:
  "commit example_staged example_disk (Some resolving_hook) =
     \<lparr>thrown = None,
      this_after = example_staged\<lparr>committed := True\<rparr>,
      final = \<lparr>cs_disk = example_disk(''a.out'' \<mapsto> File ''X'', ''c.out'' := None,
                                     ''d.out'' \<mapsto> File [], ''e.out'' \<mapsto> File ''new''),
               cs_added = [''a.out'', ''d.out'', ''e.out''],
               cs_removed = [''c.out''],
               cs_trace = [FsWrite ''a.out'' ''X'', FsUnlink ''c.out'', FsWrite ''d.out'' [],
                           FsWrite ''e.out'' ''new'',
                           AddRemove [''a.out'', ''d.out'', ''e.out''] [''c.out'']]\<rparr>\<rparr>"
  by (simp add: example_staged_eq example_disk_def commit_eval)

lemma example_commit_reordered:
  "commit example_reordered example_disk None =
     \<lparr>thrown = None,
      this_after = example_reordered\<lparr>committed := True\<rparr>,
      final = \<lparr>cs_disk = example_disk(''c.out'' := None, ''e.out'' \<mapsto> File ''new'',
                                     ''d.out'' \<mapsto> File [], ''a.out'' \<mapsto> File ''X''),
               cs_added = [''e.out'', ''d.out'', ''a.out''],
               cs_removed = [''c.out''],
               cs_trace = [FsUnlink ''c.out'', FsWrite ''e.out'' ''new'', FsWrite ''d.out'' [],
                           FsWrite ''a.out'' ''X'']\<rparr>\<rparr>"
  by (simp add: example_reordered_eq example_disk_def commit_eval)



text \<open>
  What the \<open>added\<close> list of a \<open>commit\<close> that resolves holds: the paths with a pending
  write whose content differs from the disk, which are the paths it physically writes;
  and what \<open>getAddedRemovedFiles\<close> reports as added on the same object and disk: the
  paths with a pending write that do not exist.
\<close>

lemma commit_added_written:
  assumes "distinct (map fst (buffer this))" and "thrown (commit this d sc) = None"
  shows "(path \<in> set (cs_added (final (commit this d sc)))
            \<longleftrightarrow> (\<exists>data. map_of (buffer this) path = Some (Some data) \<and> d path \<noteq> Some (File data)))
       \<and> (path \<in> set (cs_added (final (commit this d sc)))
            \<longleftrightarrow> (\<exists>data. FsWrite path data \<in> set (cs_trace (final (commit this d sc)))))
       \<and> (\<forall>data. map_of (buffer this) path = Some (Some data)
            \<longrightarrow> cs_disk (final (commit this d sc)) path = Some (File data))
       \<and> (\<exists>added removed. getAddedRemovedFiles this d = Inr (added, removed)
            \<and> (path \<in> set added
                 \<longleftrightarrow> (\<exists>data. map_of (buffer this) path = Some (Some data) \<and> d path = None)))"
proof -
  note eff = commit_effects [OF assms]
  have open_: "\<not> committed this"
    using assms(2) by (rule commit_resolved)
  have a: "path \<in> set (cs_added (final (commit this d sc)))
            \<longleftrightarrow> (\<exists>data. map_of (buffer this) path = Some (Some data) \<and> d path \<noteq> Some (File data))"
    by (simp only: eff(2) in_added_iff [OF assms(1)])
  have ev: "filter (\<lambda>ev. event_path ev = Some path) (cs_trace (final (commit this d sc)))
             = (case map_of (buffer this) path of
                  None \<Rightarrow> []
                | Some v \<Rightarrow> spec_entry_events d (path, v))"
    by (subst eff(4)) (simp add: events_of_path [OF assms(1)] no_path_in_AddRemove)
  have "(\<exists>data. FsWrite path data \<in> set (cs_trace (final (commit this d sc))))
          \<longleftrightarrow> (\<exists>data. FsWrite path data
                 \<in> set (filter (\<lambda>ev. event_path ev = Some path) (cs_trace (final (commit this d sc)))))"
    by simp
  also have "\<dots> \<longleftrightarrow> (\<exists>data. map_of (buffer this) path = Some (Some data) \<and> d path \<noteq> Some (File data))"
    unfolding ev by (cases "map_of (buffer this) path") (simp_all add: FsWrite_in_entry_events)
  finally have b: "path \<in> set (cs_added (final (commit this d sc)))
            \<longleftrightarrow> (\<exists>data. FsWrite path data \<in> set (cs_trace (final (commit this d sc))))"
    using a by simp
  have c: "\<forall>data. map_of (buffer this) path = Some (Some data)
            \<longrightarrow> cs_disk (final (commit this d sc)) path = Some (File data)"
    by (simp add: eff(1) spec_disk_after_def)
  have "getAddedRemovedFiles this d =
          Inr (map fst (filter (spec_entry_new d) (buffer this)),
               map fst (filter spec_entry_removed (buffer this)))"
    using open_ by (simp add: getAddedRemovedFiles_def assertNotComitted_open getAddedRemoved_loop_eq)
  then have e: "\<exists>added removed. getAddedRemovedFiles this d = Inr (added, removed)
            \<and> (path \<in> set added
                 \<longleftrightarrow> (\<exists>data. map_of (buffer this) path = Some (Some data) \<and> d path = None))"
    using in_new_iff [OF assms(1), of path d] by simp
  from a b c e show ?thesis by blast
qed

section \<open>What \<open>commit\<close> writes, deletes and reports\<close>

text \<open>
  The buffer is a \<open>Map\<close>, so its keys are distinct. The theorems about an arbitrary
  object assume this of its association list; \<open>run_distinct\<close> shows it of every object
  reached from a new one. No physical call of \<open>commit\<close> fails exactly when every
  pending deletion is of a file on the disk and no pending write goes to a directory
  (\<open>commit_loop_resolves\<close>, \<open>spec_entry_ok_iff\<close>).
\<close>

text \<open>
  Claim C1: the \<open>added\<close> list that \<open>commit\<close> passes to the hook should hold exactly
  the paths with a pending write that did not exist on disk, and never an existing path
  written with other content. The code departs from this. \<open>e.out\<close> exists on disk with
  content "stale"; a run stages \<open>write("e.out", "new")\<close>. Asked before the commit,
  \<open>getAddedRemovedFiles\<close> reports nothing as added. \<open>commit\<close> rewrites the file and
  calls the hook with \<open>added = ["e.out"]\<close>: a hook that rejects any addition rejects.
\<close>

theorem added_reports_changed_file:
  "example_disk ''e.out'' = Some (File ''stale'')
   \<and> buffer example_rewrite = [(''e.out'', Some ''new'')]
   \<and> getAddedRemovedFiles example_rewrite example_disk = Inr ([], [])
   \<and> thrown (commit example_rewrite example_disk (Some resolving_hook)) = None
   \<and> cs_added (final (commit example_rewrite example_disk (Some resolving_hook))) = [''e.out'']
   \<and> cs_trace (final (commit example_rewrite example_disk (Some resolving_hook)))
       = [FsWrite ''e.out'' ''new'', AddRemove [''e.out''] []]
   \<and> thrown (commit example_rewrite example_disk (Some picky_hook))
       = Some (Rejected ''nothing to add'')"
  by (simp add: example_rewrite_eq example_disk_def commit_eval picky_hook_def
        getAddedRemovedFiles_def)

text \<open>
  Claim C3. A pending write whose content equals what the file holds on the disk that
  \<open>commit\<close> is given (the disk at commit time; the object keeps no snapshot) causes no
  physical call on that path, and the path is in neither \<open>added\<close> nor \<open>removed\<close>;
  the file keeps its content. This holds for every outcome of \<open>commit\<close>.
\<close>

theorem unchanged_write_skipped:
  assumes "distinct (map fst (buffer this))"
    and "map_of (buffer this) path = Some (Some data)"
    and "d path = Some (File data)"
  shows "(\<forall>ev \<in> set (cs_trace (final (commit this d sc))). event_path ev \<noteq> Some path)
       \<and> path \<notin> set (cs_added (final (commit this d sc)))
       \<and> path \<notin> set (cs_removed (final (commit this d sc)))
       \<and> cs_disk (final (commit this d sc)) path = Some (File data)"
proof (cases "committed this")
  case True
  with assms(3) show ?thesis
    by (simp add: commit_def assertNotComitted_committed)
next
  case False
  let ?st0 = "\<lparr>cs_disk = d, cs_added = [], cs_removed = [], cs_trace = []\<rparr>"
  obtain err st where loop: "commit_loop (buffer this) ?st0 = (err, st)"
    by (cases "commit_loop (buffer this) ?st0")
  have only: "\<forall>v. (path, v) \<in> set (buffer this) \<longrightarrow> v = Some data"
    using map_of_distinct_unique [OF assms(1) assms(2)] by blast
  have "cs_disk ?st0 path = Some (File data)"
    using assms(3) by simp
  from commit_loop_untouched [OF only this loop]
  have st: "cs_disk st path = Some (File data)" "path \<notin> set (cs_added st)"
    "path \<notin> set (cs_removed st)" "\<forall>ev \<in> set (cs_trace st). event_path ev \<noteq> Some path"
    by auto
  show ?thesis
    using False loop st
    by (cases err; cases sc) (auto simp: commit_def assertNotComitted_open)
qed

text \<open>
  In the example run \<open>b.out\<close> holds "Y" and is staged with "Y". The run staged
  "new" for \<open>e.out\<close> while the disk held "stale"; if the file holds "new" by the time
  of \<open>commit\<close>, it is not written either.
\<close>

theorem unchanged_write_skipped_witness:
  "distinct (map fst (buffer example_staged))
   \<and> map_of (buffer example_staged) ''b.out'' = Some (Some ''Y'')
   \<and> example_disk ''b.out'' = Some (File ''Y'')
   \<and> filter (\<lambda>ev. event_path ev = Some ''b.out'')
        (cs_trace (final (commit example_staged example_disk (Some resolving_hook)))) = []
   \<and> ''b.out'' \<notin> set (cs_added (final (commit example_staged example_disk (Some resolving_hook))))
   \<and> ''b.out'' \<notin> set (cs_removed (final (commit example_staged example_disk (Some resolving_hook))))
   \<and> cs_disk (final (commit example_staged example_disk (Some resolving_hook))) ''b.out''
       = Some (File ''Y'')
   \<and> map_of (buffer example_staged) ''e.out'' = Some (Some ''new'')
   \<and> filter (\<lambda>ev. event_path ev = Some ''e.out'')
        (cs_trace (final (commit example_staged (example_disk(''e.out'' \<mapsto> File ''new'')) None)))
       = []"
proof -
  have h1: "distinct (map fst (buffer example_staged))"
    by (simp add: example_staged_eq)
  have h2: "map_of (buffer example_staged) ''b.out'' = Some (Some ''Y'')"
    by (simp add: example_staged_eq)
  have h3: "example_disk ''b.out'' = Some (File ''Y'')"
    by (simp add: example_disk_def)
  have k2: "map_of (buffer example_staged) ''e.out'' = Some (Some ''new'')"
    by (simp add: example_staged_eq)
  have k3: "(example_disk(''e.out'' \<mapsto> File ''new'')) ''e.out'' = Some (File ''new'')"
    by simp
  from unchanged_write_skipped
         [of example_staged "''b.out''" "''Y''" example_disk "Some resolving_hook", OF h1 h2 h3]
       unchanged_write_skipped
         [of example_staged "''e.out''" "''new''" "example_disk(''e.out'' \<mapsto> File ''new'')" None,
          OF h1 k2 k3]
       h1 h2 h3 k2
  show ?thesis
    by (simp add: filter_empty_conv)
qed



text \<open>
  Claim C6. \<open>commit\<close> is a function of the object, the disk and the hook, so two runs
  from the same buffer, flag, disk and hook agree in everything, including the error
  thrown. Moreover the result does not depend on the order in which the paths were
  staged, nor on the hook: two commits that resolve, from buffers holding the same
  pending entry for every path and from the same disk, produce the same set of added
  paths, the same set of removed paths and the same final disk.
\<close>

theorem commit_deterministic:
  "(buffer this1 = buffer this2 \<and> committed this1 = committed this2
      \<longrightarrow> commit this1 d sc = commit this2 d sc)
   \<and> (distinct (map fst (buffer this1)) \<and> distinct (map fst (buffer this2))
      \<and> map_of (buffer this1) = map_of (buffer this2)
      \<and> thrown (commit this1 d sc1) = None \<and> thrown (commit this2 d sc2) = None
      \<longrightarrow> set (cs_added (final (commit this1 d sc1))) = set (cs_added (final (commit this2 d sc2)))
        \<and> set (cs_removed (final (commit this1 d sc1)))
            = set (cs_removed (final (commit this2 d sc2)))
        \<and> cs_disk (final (commit this1 d sc1)) = cs_disk (final (commit this2 d sc2)))"
proof (intro conjI impI)
  assume "buffer this1 = buffer this2 \<and> committed this1 = committed this2"
  then have "this1 = this2" by simp
  then show "commit this1 d sc = commit this2 d sc" by simp
next
  assume h: "distinct (map fst (buffer this1)) \<and> distinct (map fst (buffer this2))
      \<and> map_of (buffer this1) = map_of (buffer this2)
      \<and> thrown (commit this1 d sc1) = None \<and> thrown (commit this2 d sc2) = None"
  then have d1: "distinct (map fst (buffer this1))" and d2: "distinct (map fst (buffer this2))"
    and same: "map_of (buffer this1) = map_of (buffer this2)"
    and t1: "thrown (commit this1 d sc1) = None" and t2: "thrown (commit this2 d sc2) = None"
    by simp_all
  note e1 = commit_effects [OF d1 t1] and e2 = commit_effects [OF d2 t2]
  show "set (cs_added (final (commit this1 d sc1))) = set (cs_added (final (commit this2 d sc2)))"
  proof (rule set_eqI)
    fix p
    show "(p \<in> set (cs_added (final (commit this1 d sc1))))
            = (p \<in> set (cs_added (final (commit this2 d sc2))))"
      by (simp only: e1(2) e2(2) in_added_iff [OF d1] in_added_iff [OF d2] same)
  qed
  show "set (cs_removed (final (commit this1 d sc1)))
          = set (cs_removed (final (commit this2 d sc2)))"
  proof (rule set_eqI)
    fix p
    show "(p \<in> set (cs_removed (final (commit this1 d sc1))))
            = (p \<in> set (cs_removed (final (commit this2 d sc2))))"
      by (simp only: e1(3) e2(3) in_removed_iff [OF d1] in_removed_iff [OF d2] same)
  qed
  show "cs_disk (final (commit this1 d sc1)) = cs_disk (final (commit this2 d sc2))"
    by (simp add: e1(1) e2(1) spec_disk_after_def same)
qed

text \<open>
  The example run and the same entries staged in the reverse order, one committed with
  a hook and one without.
\<close>

theorem commit_deterministic_witness:
  "buffer example_staged \<noteq> buffer example_reordered
   \<and> map_of (buffer example_staged) = map_of (buffer example_reordered)
   \<and> thrown (commit example_staged example_disk (Some resolving_hook)) = None
   \<and> thrown (commit example_reordered example_disk None) = None
   \<and> set (cs_added (final (commit example_staged example_disk (Some resolving_hook))))
       = set (cs_added (final (commit example_reordered example_disk None)))
   \<and> set (cs_removed (final (commit example_staged example_disk (Some resolving_hook))))
       = set (cs_removed (final (commit example_reordered example_disk None)))
   \<and> cs_disk (final (commit example_staged example_disk (Some resolving_hook)))
       = cs_disk (final (commit example_reordered example_disk None))
   \<and> commit example_staged example_disk None = commit example_staged example_disk None"
proof -
  have h0: "buffer example_staged \<noteq> buffer example_reordered"
    by (simp add: example_staged_eq example_reordered_eq)
  have h1: "distinct (map fst (buffer example_staged))"
    by (simp add: example_staged_eq)
  have h2: "distinct (map fst (buffer example_reordered))"
    by (simp add: example_reordered_eq)
  have h3: "map_of (buffer example_staged) = map_of (buffer example_reordered)"
    by (auto simp: example_staged_eq example_reordered_eq fun_eq_iff)
  have h4: "thrown (commit example_staged example_disk (Some resolving_hook)) = None"
    by (simp add: example_commit)
  have h5: "thrown (commit example_reordered example_disk None) = None"
    by (simp add: example_commit_reordered)
  from commit_deterministic
         [of example_staged example_reordered example_disk None "Some resolving_hook" None]
       commit_deterministic
         [of example_staged example_staged example_disk None None None]
       h0 h1 h2 h3 h4 h5
  show ?thesis
    by simp
qed



end
